theory Spec2Isabelle
  imports Complex_Main "HOL-Library.Multiset" "HOL-Library.Sublist" "HOL-Library.FuncSet"
begin

section \<open>The roster engine of \<^verbatim>\<open>src/App.tsx\<close>\<close>

text \<open>
  The component keeps its state in React hooks. The model threads that state through
  every handler as a record and returns the updated record. Values that come from the
  JavaScript engine rather than from the repository are inputs of the model:
  \<^item> the values returned by the successive calls of \<^verbatim>\<open>Math.random()\<close>, a sequence
    \<open>rnd :: nat \<Rightarrow> rat\<close> (call number \<open>i\<close> returns \<open>rnd i\<close>; every double is a rational);
  \<^item> \<^verbatim>\<open>Number.prototype.toString(36)\<close>, a function \<open>toString36\<close> from the number to its
    digit string;
  \<^item> \<^verbatim>\<open>Array.prototype.sort\<close>, a function \<open>array_sort\<close> taking the sequence of values
    returned by the successive calls of the comparator, and the array.
\<close>

subsection \<open>Data\<close>

record Person =
  id_p :: string
  name :: string

record app =
  names :: "Person list"
  inputText :: string
  winners :: "Person list"
  isDrawing :: bool
  currentCandidate :: "string option"
  allowRepeat :: bool
  groupSize :: int
  groups :: "Person list list"

definition initial :: app where
  "initial = \<lparr>names = [], inputText = [], winners = [], isDrawing = False,
     currentCandidate = None, allowRepeat = False, groupSize = 4, groups = []\<rparr>"

subsection \<open>Array helpers of the language\<close>

text \<open>\<^verbatim>\<open>findIndex\<close> gives the first index whose element satisfies the test, and \<open>-1\<close> when
  there is none.\<close>

fun findIndex :: "('a \<Rightarrow> bool) \<Rightarrow> 'a list \<Rightarrow> int" where
  "findIndex P [] = - 1"
| "findIndex P (x # xs) =
     (if P x then 0 else (let r = findIndex P xs in if r < 0 then - 1 else r + 1))"

text \<open>\<^verbatim>\<open>filter\<close> with a callback that also reads the index.\<close>

definition filter_indexed :: "('a \<Rightarrow> int \<Rightarrow> bool) \<Rightarrow> 'a list \<Rightarrow> 'a list" where
  "filter_indexed f xs =
     map fst (filter (\<lambda>(x, index). f x index) (zip xs (map int [0..<length xs])))"

text \<open>\<^verbatim>\<open>slice(start, end)\<close>: a negative bound counts from the end of the array, both
  bounds are clamped to the array, and an empty range gives the empty array.\<close>

definition slice :: "'a list \<Rightarrow> int \<Rightarrow> int \<Rightarrow> 'a list" where
  "slice xs start end' =
     (let len = int (length xs);
          k = (if start < 0 then max (len + start) 0 else min start len);
          final = (if end' < 0 then max (len + end') 0 else min end' len)
      in take (nat (final - k)) (drop (nat k) xs))"

text \<open>\<^verbatim>\<open>substr(start, length)\<close> for a start that is not negative.\<close>

definition substr :: "string \<Rightarrow> nat \<Rightarrow> nat \<Rightarrow> string" where
  "substr s start len = take len (drop start s)"

subsection \<open>Duplicate names\<close>

text \<open>Lines 47 to 51: the names of the entries that are not the first entry of their name.\<close>

definition duplicates :: "Person list \<Rightarrow> string list" where
  "duplicates ns =
     map name (filter_indexed (\<lambda>person index.
        findIndex (\<lambda>n. name n = name person) ns \<noteq> index) ns)"

definition hasDuplicates :: "Person list \<Rightarrow> bool" where
  "hasDuplicates ns = (length (duplicates ns) > 0)"

text \<open>Lines 63 to 71: the filter callback reads and extends the set \<open>seen\<close>.\<close>

fun uniqueNames :: "string set \<Rightarrow> Person list \<Rightarrow> Person list" where
  "uniqueNames seen [] = []"
| "uniqueNames seen (person # rest) =
     (let duplicate = (name person \<in> seen);
          seen' = insert (name person) seen
      in if \<not> duplicate then person # uniqueNames seen' rest else uniqueNames seen' rest)"

definition removeDuplicates :: "app \<Rightarrow> app" where
  "removeDuplicates st = st\<lparr>names := uniqueNames {} (names st)\<rparr>"

subsection \<open>Adding and removing participants\<close>

text \<open>A character is a code unit below 256. \<^verbatim>\<open>trim\<close> removes the white space and line
  terminators of the language at both ends; those below 256 are the six control and space
  characters and the no-break space.\<close>

definition is_space :: "char \<Rightarrow> bool" where
  "is_space c = ((of_char c :: nat) \<in> {9, 10, 11, 12, 13, 32, 160})"

definition trim :: "string \<Rightarrow> string" where
  "trim s = rev (dropWhile is_space (rev (dropWhile is_space s)))"

text \<open>\<^verbatim>\<open>split(/[\n,]+/)\<close>: every maximal run of line feeds and commas separates two pieces;
  a run at the start or at the end leaves an empty piece there.\<close>

definition is_sep :: "char \<Rightarrow> bool" where
  "is_sep c = ((of_char c :: nat) = 10 \<or> c = CHR '','')"

fun split_run :: "bool \<Rightarrow> string \<Rightarrow> string \<Rightarrow> string list" where
  "split_run in_run cur [] = [cur]"
| "split_run in_run cur (c # cs) =
     (if is_sep c then (if in_run then split_run True cur cs else cur # split_run True [] cs)
      else split_run False (cur @ [c]) cs)"

definition split_names :: "string \<Rightarrow> string list" where
  "split_names s = split_run False [] s"

text \<open>\<^verbatim>\<open>{ id: Math.random().toString(36).substr(2, 9), name: n }\<close>, one call of
  \<^verbatim>\<open>Math.random()\<close> for each entry, in the order of the entries.\<close>

definition newPerson :: "(rat \<Rightarrow> string) \<Rightarrow> rat \<Rightarrow> string \<Rightarrow> Person" where
  "newPerson toString36 r n = \<lparr>id_p = substr (toString36 r) 2 9, name = n\<rparr>"

definition newPersons :: "(rat \<Rightarrow> string) \<Rightarrow> (nat \<Rightarrow> rat) \<Rightarrow> string list \<Rightarrow> Person list" where
  "newPersons toString36 rnd ns =
     map (\<lambda>(i, n). newPerson toString36 (rnd i) n) (zip [0..<length ns] ns)"

text \<open>Lines 115 to 124.\<close>

definition handleAddNames :: "(rat \<Rightarrow> string) \<Rightarrow> (nat \<Rightarrow> rat) \<Rightarrow> app \<Rightarrow> app" where
  "handleAddNames toString36 rnd st =
     (let newNames = newPersons toString36 rnd
            (filter (\<lambda>n. length n > 0) (map trim (split_names (inputText st))))
      in st\<lparr>names := names st @ newNames, inputText := []\<rparr>)"

text \<open>Lines 100 to 111, the callback that receives the parsed rows.\<close>

definition handleFileUpload :: "(rat \<Rightarrow> string) \<Rightarrow> (nat \<Rightarrow> rat) \<Rightarrow> string list list \<Rightarrow> app \<Rightarrow> app" where
  "handleFileUpload toString36 rnd results_data st =
     (let parsedNames = newPersons toString36 rnd
            (filter (\<lambda>n. length n > 0) (map trim (concat results_data)))
      in st\<lparr>names := names st @ parsedNames\<rparr>)"

text \<open>Lines 126 to 128.\<close>

definition removeName :: "string \<Rightarrow> app \<Rightarrow> app" where
  "removeName i st = st\<lparr>names := filter (\<lambda>n. id_p n \<noteq> i) (names st)\<rparr>"

text \<open>Lines 130 to 136; \<open>confirmed\<close> is the answer to the confirmation dialog.\<close>

definition clearAll :: "bool \<Rightarrow> app \<Rightarrow> app" where
  "clearAll confirmed st =
     (if confirmed then st\<lparr>names := [], winners := [], groups := []\<rparr> else st)"

text \<open>The handler of the button that resets the winners (line 443).\<close>

definition resetWinners :: "app \<Rightarrow> app" where
  "resetWinners st = st\<lparr>winners := []\<rparr>"

subsection \<open>The draw\<close>

text \<open>
  \<^verbatim>\<open>availableNames[Math.floor(Math.random() * availableNames.length)]\<close>. The product is
  taken exactly here. The code rounds it to a double, which can be the next integer where
  the exact product is just below it: then the code picks the neighbour of the element
  picked here. For a double below 1 the rounded product stays below the length, so both
  indices are in range. Reading an array out of range gives \<^verbatim>\<open>undefined\<close>, which is
  \<open>None\<close>.
\<close>

definition random_pick :: "rat \<Rightarrow> 'a list \<Rightarrow> 'a option" where
  "random_pick r xs =
     (let randomIndex = \<lfloor>r * of_nat (length xs)\<rfloor>
      in if 0 \<le> randomIndex \<and> randomIndex < int (length xs)
         then Some (xs ! nat randomIndex) else None)"

datatype draw_outcome = Ignored | NoCandidates | Winner Person | TypeError

definition steps :: nat where
  "steps = 2000 div 50"

text \<open>
  The timer callback of lines 159 to 178, run tick after tick with no other event in
  between. The tick with counter \<open>c\<close> makes call number \<open>c\<close> of \<^verbatim>\<open>Math.random()\<close> for the
  name it displays; the last tick makes one more call for the winner. Reading \<^verbatim>\<open>.name\<close>
  of \<^verbatim>\<open>undefined\<close> throws; the model stops there with \<open>TypeError\<close>.
\<close>

function timer_ticks :: "(nat \<Rightarrow> rat) \<Rightarrow> Person list \<Rightarrow> nat \<Rightarrow> app \<Rightarrow> draw_outcome \<times> app" where
  "timer_ticks rnd availableNames counter st =
     (case random_pick (rnd counter) availableNames of
        None \<Rightarrow> (TypeError, st)
      | Some candidate \<Rightarrow>
          (let st1 = st\<lparr>currentCandidate := Some (name candidate)\<rparr>;
               counter' = counter + 1
           in if counter' \<ge> steps then
                (case random_pick (rnd counter') availableNames of
                   None \<Rightarrow> (TypeError, st1)
                 | Some finalWinner \<Rightarrow>
                     (Winner finalWinner,
                      st1\<lparr>winners := finalWinner # winners st1,
                          currentCandidate := Some (name finalWinner),
                          isDrawing := False\<rparr>))
              else timer_ticks rnd availableNames counter' st1))"
  by pat_completeness auto
termination
  by (relation "measure (\<lambda>(rnd, availableNames, counter, st). steps - counter)") auto

text \<open>Lines 139 to 179. The alert is the outcome \<open>NoCandidates\<close>; the return of line 140
  shows nothing and is the outcome \<open>Ignored\<close>.\<close>

definition startDraw :: "(nat \<Rightarrow> rat) \<Rightarrow> app \<Rightarrow> draw_outcome \<times> app" where
  "startDraw rnd st =
     (if length (names st) = 0 then (Ignored, st)
      else
        let availableNames =
              (if allowRepeat st then names st
               else filter (\<lambda>n. find (\<lambda>w. id_p w = id_p n) (winners st) = None) (names st))
        in if length availableNames = 0 then (NoCandidates, st)
           else timer_ticks rnd availableNames 0 (st\<lparr>isDrawing := True\<rparr>))"

subsection \<open>Grouping\<close>

text \<open>The change handler of the size field (line 496): \<^verbatim>\<open>parseInt(e.target.value) || 1\<close>,
  where \<open>None\<close> is the result \<^verbatim>\<open>NaN\<close> of \<^verbatim>\<open>parseInt\<close>.\<close>

definition setGroupSize :: "int option \<Rightarrow> app \<Rightarrow> app" where
  "setGroupSize parsed st =
     st\<lparr>groupSize := (case parsed of None \<Rightarrow> 1 | Some n \<Rightarrow> if n = 0 then 1 else n)\<rparr>"

text \<open>Line 185: the comparator ignores its arguments and returns
  \<^verbatim>\<open>Math.random() - 0.5\<close>, so its call number \<open>i\<close> returns \<open>rnd i - 1/2\<close>.\<close>

definition shuffle ::
  "((nat \<Rightarrow> rat) \<Rightarrow> Person list \<Rightarrow> Person list) \<Rightarrow> (nat \<Rightarrow> rat) \<Rightarrow> Person list \<Rightarrow> Person list" where
  "shuffle array_sort rnd ns = array_sort (\<lambda>i. rnd i - 1 / 2) ns"

text \<open>The loop of lines 189 to 191. It need not end, so its value is an option and
  \<open>None\<close> is the loop that runs forever.\<close>

partial_function (option) group_loop ::
  "Person list \<Rightarrow> int \<Rightarrow> int \<Rightarrow> Person list list \<Rightarrow> Person list list option" where
  "group_loop shuffled size' i result =
     (if i < int (length shuffled)
      then group_loop shuffled size' (i + size') (result @ [slice shuffled i (i + size')])
      else Some result)"

declare group_loop.simps [code]

text \<open>Lines 182 to 194.\<close>

definition generateGroups ::
  "((nat \<Rightarrow> rat) \<Rightarrow> Person list \<Rightarrow> Person list) \<Rightarrow> (nat \<Rightarrow> rat) \<Rightarrow> app \<Rightarrow> app option" where
  "generateGroups array_sort rnd st =
     (if length (names st) = 0 then Some st
      else
        let shuffled = shuffle array_sort rnd (names st);
            size' = groupSize st
        in case group_loop shuffled size' 0 [] of
             None \<Rightarrow> None
           | Some result \<Rightarrow> Some (st\<lparr>groups := result\<rparr>))"

subsection \<open>Sequences of additions\<close>

text \<open>A paste into the text field followed by the add button, or an upload. The calls of
  a sequence share one source of random numbers: each call goes on where the call before
  it stopped, one random number after each participant created.\<close>

datatype add_call = AddFromText string | AddFromRows "string list list"

fun run_add_call :: "(rat \<Rightarrow> string) \<Rightarrow> (nat \<Rightarrow> rat) \<Rightarrow> add_call \<Rightarrow> app \<Rightarrow> app" where
  "run_add_call toString36 rnd (AddFromText raw) st =
     handleAddNames toString36 rnd (st\<lparr>inputText := raw\<rparr>)"
| "run_add_call toString36 rnd (AddFromRows rows) st = handleFileUpload toString36 rnd rows st"

fun add_calls :: "(rat \<Rightarrow> string) \<Rightarrow> (nat \<Rightarrow> rat) \<Rightarrow> add_call list \<Rightarrow> app \<Rightarrow> app" where
  "add_calls toString36 rnd [] st = st"
| "add_calls toString36 rnd (c # cs) st =
     (let st' = run_add_call toString36 rnd c st;
          used = length (names st') - length (names st)
      in add_calls toString36 (\<lambda>i. rnd (used + i)) cs st')"

subsection \<open>The random numbers with \<open>b\<close> bits\<close>

text \<open>A source that returns each of the \<open>2 ^ b\<close> multiples of \<open>1 / 2 ^ b\<close> below 1 with the
  same probability, and \<open>k\<close> independent calls of it: every element of \<open>draws b k\<close> is as
  likely as every other.\<close>

definition random_values :: "nat \<Rightarrow> rat set" where
  "random_values b = (\<lambda>m. of_nat m / 2 ^ b) ` {..<2 ^ b}"

definition draws :: "nat \<Rightarrow> nat \<Rightarrow> (nat \<Rightarrow> rat) set" where
  "draws b k = PiE {..<k} (\<lambda>i. random_values b)"

text \<open>The comparator returns \<open>r - 1/2\<close> for the draw \<open>r\<close>. The values of the source for which
  that is negative, and those for which it is not.\<close>

definition negative_draw :: "rat \<Rightarrow> bool" where
  "negative_draw r = (r - 1 / 2 < 0)"

definition half_values :: "nat \<Rightarrow> bool \<Rightarrow> rat set" where
  "half_values b below = {v \<in> random_values b. negative_draw v = below}"

text \<open>A source for a given sequence of signs: it returns one quarter at the calls where the
  comparator is to return a negative value and three quarters at the others. The sign
  sequences of length \<open>k\<close> for which the shuffle returns the order \<open>p\<close>.\<close>

definition sign_source :: "bool list \<Rightarrow> nat \<Rightarrow> rat" where
  "sign_source s i = (if i < length s \<and> s ! i then 1 / 4 else 3 / 4)"

definition sign_patterns ::
  "((nat \<Rightarrow> rat) \<Rightarrow> Person list \<Rightarrow> Person list) \<Rightarrow> nat \<Rightarrow> Person list \<Rightarrow> Person list \<Rightarrow> bool list list" where
  "sign_patterns array_sort k ns p =
     filter (\<lambda>s. shuffle array_sort (sign_source s) ns = p) (List.n_lists k [True, False])"

subsection \<open>The later copies of a name\<close>

text \<open>What the indexed filter of \<open>duplicates\<close> computes, as a recursion over the roster
  with the names met so far.\<close>

fun later_copies :: "string set \<Rightarrow> Person list \<Rightarrow> string list" where
  "later_copies seen [] = []"
| "later_copies seen (p # ps) =
     (if name p \<in> seen then name p # later_copies (insert (name p) seen) ps
      else later_copies (insert (name p) seen) ps)"

subsection \<open>The chunks of a list\<close>

text \<open>The consecutive chunks of \<open>n\<close> elements of a list, the last one with what is left.\<close>

fun chunks :: "nat \<Rightarrow> 'a list \<Rightarrow> 'a list list" where
  "chunks n [] = []"
| "chunks n (x # xs) =
     (if n = 0 then [] else take n (x # xs) # chunks n (drop n (x # xs)))"

subsection \<open>One engine, for evaluation\<close>

text \<open>Insertion sort is one way an engine may sort. Call number \<open>k\<close> of the comparator
  returns \<open>cmp k\<close>; a negative value puts the first argument before the second.\<close>

fun insert_by :: "(nat \<Rightarrow> rat) \<Rightarrow> 'a \<Rightarrow> 'a list \<Rightarrow> nat \<Rightarrow> 'a list \<times> nat" where
  "insert_by cmp x [] k = ([x], k)"
| "insert_by cmp x (y # ys) k =
     (if cmp k < 0 then (x # y # ys, Suc k)
      else (case insert_by cmp x ys (Suc k) of (zs, k') \<Rightarrow> (y # zs, k')))"

fun insertion_sort_from :: "(nat \<Rightarrow> rat) \<Rightarrow> 'a list \<Rightarrow> nat \<Rightarrow> 'a list \<times> nat" where
  "insertion_sort_from cmp [] k = ([], k)"
| "insertion_sort_from cmp (x # xs) k =
     (case insertion_sort_from cmp xs k of (ys, k') \<Rightarrow> insert_by cmp x ys k')"

definition insertion_sort :: "(nat \<Rightarrow> rat) \<Rightarrow> 'a list \<Rightarrow> 'a list" where
  "insertion_sort cmp xs = fst (insertion_sort_from cmp xs 0)"

text \<open>The digits of a number of the interval from 0 to 1 in base 36, at most twelve
  after the point.\<close>

definition digit36 :: "nat \<Rightarrow> char" where
  "digit36 d = ''0123456789abcdefghijklmnopqrstuvwxyz'' ! d"

fun fraction36 :: "nat \<Rightarrow> rat \<Rightarrow> string" where
  "fraction36 0 f = []"
| "fraction36 (Suc k) f =
     (if f = 0 then []
      else (let d = \<lfloor>f * 36\<rfloor> in digit36 (nat d) # fraction36 k (f * 36 - of_int d)))"

definition digits36 :: "rat \<Rightarrow> string" where
  "digits36 r = (if r = 0 then ''0'' else ''0.'' @ fraction36 12 r)"

subsection \<open>Inputs for evaluation\<close>

definition alice :: Person where
  "alice = \<lparr>id_p = ''a1'', name = ''Alice''\<rparr>"

definition bob :: Person where
  "bob = \<lparr>id_p = ''b1'', name = ''Bob''\<rparr>"

definition carol :: Person where
  "carol = \<lparr>id_p = ''c1'', name = ''Carol''\<rparr>"

text \<open>A second and a third participant with the name of the first.\<close>

definition alice2 :: Person where
  "alice2 = \<lparr>id_p = ''a2'', name = ''Alice''\<rparr>"

definition alice3 :: Person where
  "alice3 = \<lparr>id_p = ''a3'', name = ''Alice''\<rparr>"

text \<open>A source of random numbers that returns one half at every call, and one that
  returns a new number at every call: one half, one quarter, one eighth and so on.\<close>

definition always_half :: "nat \<Rightarrow> rat" where
  "always_half i = 1 / 2"

definition halving :: "nat \<Rightarrow> rat" where
  "halving i = 1 / 2 ^ (i + 1)"

section \<open>Lemmas\<close>

subsection \<open>Duplicate names\<close>

lemma findIndex_ge: "- 1 \<le> findIndex P xs"
  by (induction xs) (auto simp: Let_def)

lemma findIndex_append:
  "findIndex P (pre @ x # suf) = int (length pre) \<longleftrightarrow> P x \<and> (\<forall>y\<in>set pre. \<not> P y)"
proof (induction pre)
  case Nil
  then show ?case using findIndex_ge[of P suf] by (auto simp: Let_def)
next
  case (Cons a pre)
  then show ?case using findIndex_ge[of P "pre @ x # suf"] by (auto simp: Let_def)
qed

lemma duplicates_suffix:
  "map (\<lambda>(p, i). name p)
     (filter (\<lambda>(p, i). findIndex (\<lambda>n. name n = name p) (pre @ suf) \<noteq> i)
        (zip suf (map int [length pre..<length pre + length suf])))
   = later_copies (name ` set pre) suf"
proof (induction suf arbitrary: pre)
  case Nil
  then show ?case by simp
next
  case (Cons p suf)
  have up: "[length pre..<length pre + length (p # suf)] =
      length pre # [length (pre @ [p])..<length (pre @ [p]) + length suf]"
    by (simp add: upt_rec)
  have first: "findIndex (\<lambda>n. name n = name p) (pre @ p # suf) = int (length pre)
      \<longleftrightarrow> name p \<notin> name ` set pre"
    by (auto simp: findIndex_append intro: rev_image_eqI)
  have "name ` set (pre @ [p]) = insert (name p) (name ` set pre)"
    by auto
  with Cons[of "pre @ [p]"] show ?case
    unfolding up by (simp add: first)
qed

lemma duplicates_later_copies: "duplicates ns = later_copies {} ns"
  using duplicates_suffix[of "[]" ns]
  by (simp add: duplicates_def filter_indexed_def comp_def case_prod_unfold)

lemma count_later_copies:
  "count_list (later_copies seen ns) x =
     (if x \<in> seen then count_list (map name ns) x else count_list (map name ns) x - 1)"
  by (induction ns arbitrary: seen) auto

lemma later_copies_Nil:
  "later_copies seen ns = [] \<longleftrightarrow> distinct (map name ns) \<and> name ` set ns \<inter> seen = {}"
  by (induction ns arbitrary: seen) auto

lemma set_later_copies:
  "set (later_copies {} ns) = {x. 2 \<le> count_list (map name ns) x}"
proof -
  have "x \<in> set (later_copies {} ns) \<longleftrightarrow> 2 \<le> count_list (map name ns) x" for x
    using count_later_copies[of "{}" ns x] count_list_0_iff[of "later_copies {} ns" x]
    by (cases "count_list (later_copies {} ns) x = 0") auto
  then show ?thesis by blast
qed

subsection \<open>Removing duplicate names\<close>

lemma uniqueNames_suffix:
  "uniqueNames (seen \<union> name ` set pre) suf =
     map fst (filter (\<lambda>(p, i). name p \<notin> seen \<and> name p \<notin> name ` set (take i (pre @ suf)))
        (zip suf [length pre..<length pre + length suf]))"
proof (induction suf arbitrary: pre)
  case Nil
  then show ?case by simp
next
  case (Cons p suf)
  have up: "[length pre..<length pre + length (p # suf)] =
      length pre # [length (pre @ [p])..<length (pre @ [p]) + length suf]"
    by (simp add: upt_rec)
  have eq: "insert (name p) (seen \<union> name ` set pre) = seen \<union> name ` set (pre @ [p])"
    by auto
  show ?case unfolding up using Cons[of "pre @ [p]"]
    by (simp add: Let_def eq del: Un_insert_right set_append)
qed

lemma zip_upt_nth: "zip xs [0..<length xs] = map (\<lambda>i. (xs ! i, i)) [0..<length xs]"
  by (rule nth_equalityI) simp_all

lemma uniqueNames_first_index:
  "uniqueNames {} ns =
     map (\<lambda>i. ns ! i)
       (filter (\<lambda>i. \<forall>j<i. name (ns ! j) \<noteq> name (ns ! i)) [0..<length ns])"
proof -
  have cond: "name (ns ! i) \<notin> name ` set (take i ns) \<longleftrightarrow> (\<forall>j<i. name (ns ! j) \<noteq> name (ns ! i))"
    if "i < length ns" for i
  proof -
    have "set (take i ns) = (\<lambda>j. ns ! j) ` {0..<i}"
      using that nth_image[of i ns] by simp
    then have "name ` set (take i ns) = (\<lambda>j. name (ns ! j)) ` {0..<i}"
      by (simp add: image_image)
    then have "name (ns ! i) \<notin> name ` set (take i ns)
        \<longleftrightarrow> (\<forall>j\<in>{0..<i}. name (ns ! j) \<noteq> name (ns ! i))"
      by (auto simp: image_iff)
    also have "\<dots> \<longleftrightarrow> (\<forall>j<i. name (ns ! j) \<noteq> name (ns ! i))"
      by auto
    finally show ?thesis .
  qed
  have "uniqueNames {} ns =
      map fst (filter (\<lambda>(p, i). name p \<notin> name ` set (take i ns)) (zip ns [0..<length ns]))"
    using uniqueNames_suffix[of "{}" "[]" ns] by simp
  also have "\<dots> = map (\<lambda>i. ns ! i)
      (filter (\<lambda>i. name (ns ! i) \<notin> name ` set (take i ns)) [0..<length ns])"
    by (simp add: zip_upt_nth filter_map comp_def)
  also have "\<dots> = map (\<lambda>i. ns ! i)
      (filter (\<lambda>i. \<forall>j<i. name (ns ! j) \<noteq> name (ns ! i)) [0..<length ns])"
    using cond by (intro arg_cong[where f = "map (\<lambda>i. ns ! i)"] filter_cong) auto
  finally show ?thesis .
qed

lemma uniqueNames_subseq: "subseq (uniqueNames seen ns) ns"
  by (induction ns arbitrary: seen) (auto simp: Let_def)

lemma uniqueNames_idem: "uniqueNames seen (uniqueNames seen ns) = uniqueNames seen ns"
proof (induction ns arbitrary: seen)
  case Nil
  then show ?case by simp
next
  case (Cons p ns)
  show ?case
  proof (cases "name p \<in> seen")
    case True
    then have "insert (name p) seen = seen" by auto
    with True Cons show ?thesis by (simp add: Let_def)
  next
    case False
    have "uniqueNames (insert (name p) seen) (uniqueNames (insert (name p) seen) ns)
        = uniqueNames (insert (name p) seen) ns"
      by (rule Cons)
    with False show ?thesis by (simp add: Let_def)
  qed
qed

subsection \<open>New participants and their ids\<close>

lemma length_newPersons: "length (newPersons ts rnd ns) = length ns"
  by (simp add: newPersons_def)

lemma newPersons_ids:
  "map id_p (newPersons ts rnd ns) = map (\<lambda>i. substr (ts (rnd i)) 2 9) [0..<length ns]"
proof (rule nth_equalityI)
  show "length (map id_p (newPersons ts rnd ns)) =
      length (map (\<lambda>i. substr (ts (rnd i)) 2 9) [0..<length ns])"
    by (simp add: length_newPersons)
next
  fix i assume "i < length (map id_p (newPersons ts rnd ns))"
  then have "i < length ns" by (simp add: length_newPersons)
  then show "map id_p (newPersons ts rnd ns) ! i =
      map (\<lambda>i. substr (ts (rnd i)) 2 9) [0..<length ns] ! i"
    by (simp add: newPersons_def newPerson_def)
qed

lemma run_add_call_names:
  "\<exists>n. names (run_add_call ts rnd c st) = names st @ newPersons ts rnd n"
proof (cases c)
  case (AddFromText raw)
  then show ?thesis by (simp add: handleAddNames_def Let_def) blast
next
  case (AddFromRows rows)
  then show ?thesis by (simp add: handleFileUpload_def Let_def) blast
qed

lemma add_calls_ids_from:
  "\<exists>m. length (names (add_calls ts rnd cs st)) = length (names st) + m \<and>
     map id_p (names (add_calls ts rnd cs st)) =
       map id_p (names st) @ map (\<lambda>i. substr (ts (rnd i)) 2 9) [0..<m]"
proof (induction cs arbitrary: rnd st)
  case Nil
  then show ?case by simp
next
  case (Cons c cs)
  obtain n where n: "names (run_add_call ts rnd c st) = names st @ newPersons ts rnd n"
    using run_add_call_names by blast
  define st' where "st' = run_add_call ts rnd c st"
  define k where "k = length n"
  have len': "length (names st') = length (names st) + k"
    by (simp add: st'_def n length_newPersons k_def)
  have ids': "map id_p (names st') =
      map id_p (names st) @ map (\<lambda>i. substr (ts (rnd i)) 2 9) [0..<k]"
    by (simp add: st'_def n newPersons_ids k_def)
  obtain m where m:
    "length (names (add_calls ts (\<lambda>i. rnd (k + i)) cs st')) = length (names st') + m"
    "map id_p (names (add_calls ts (\<lambda>i. rnd (k + i)) cs st')) =
       map id_p (names st') @ map (\<lambda>i. substr (ts (rnd (k + i))) 2 9) [0..<m]"
    using Cons[of "\<lambda>i. rnd (k + i)" st'] by blast
  have shift: "map (\<lambda>i. substr (ts (rnd (k + i))) 2 9) [0..<m]
      = map (\<lambda>i. substr (ts (rnd i)) 2 9) [k..<k + m]"
    by (rule nth_equalityI) simp_all
  have split: "[0..<k + m] = [0..<k] @ [k..<k + m]"
    by (rule upt_add_eq_append) simp
  have sim: "add_calls ts rnd (c # cs) st = add_calls ts (\<lambda>i. rnd (k + i)) cs st'"
    using len' by (simp add: Let_def st'_def)
  have "length (names (add_calls ts rnd (c # cs) st)) = length (names st) + (k + m)"
    unfolding sim using m(1) len' by simp
  moreover have "map id_p (names (add_calls ts rnd (c # cs) st)) =
       map id_p (names st) @ map (\<lambda>i. substr (ts (rnd i)) 2 9) [0..<k + m]"
    unfolding sim m(2) ids' shift split by simp
  ultimately show ?case by blast
qed

subsection \<open>The draw\<close>

lemma random_pick_in:
  assumes "0 \<le> r" "r < 1" "xs \<noteq> []"
  shows "\<exists>x\<in>set xs. random_pick r xs = Some x"
proof -
  have n: "0 < length xs" using assms by simp
  have "r * of_nat (length xs) < of_nat (length xs)" using assms n by simp
  then have hi: "\<lfloor>r * of_nat (length xs)\<rfloor> < int (length xs)" by (simp add: floor_less_iff)
  have lo: "0 \<le> \<lfloor>r * of_nat (length xs)\<rfloor>" using assms by simp
  from lo hi have "nat \<lfloor>r * of_nat (length xs)\<rfloor> < length xs" by linarith
  then show ?thesis using lo hi by (simp add: random_pick_def Let_def)
qed

lemma timer_ticks_final:
  assumes "\<forall>i. 0 \<le> rnd i \<and> rnd i < 1" "avail \<noteq> []" "c < steps"
  shows "\<exists>w\<in>set avail. random_pick (rnd steps) avail = Some w \<and>
           timer_ticks rnd avail c st =
             (Winner w, st\<lparr>winners := w # winners st,
                           currentCandidate := Some (name w), isDrawing := False\<rparr>)"
  using assms
proof (induction "steps - c" arbitrary: c st)
  case 0
  then show ?case by simp
next
  case (Suc d)
  obtain cand where cand: "cand \<in> set avail" "random_pick (rnd c) avail = Some cand"
    using random_pick_in[of "rnd c" avail] Suc.prems by blast
  show ?case
  proof (cases "Suc c = steps")
    case True
    obtain w where w: "w \<in> set avail" "random_pick (rnd steps) avail = Some w"
      using random_pick_in[of "rnd steps" avail] Suc.prems by blast
    show ?thesis using True cand w
      by (subst timer_ticks.simps) (auto simp: Let_def)
  next
    case False
    then have lt: "Suc c < steps" using Suc.prems by simp
    have d: "d = steps - Suc c" using Suc.hyps(2) by simp
    from Suc.hyps(1)[OF d Suc.prems(1,2) lt, of "st\<lparr>currentCandidate := Some (name cand)\<rparr>"]
    show ?thesis using cand lt
      by (subst timer_ticks.simps) (auto simp: Let_def)
  qed
qed

lemma find_None_ids: "find (\<lambda>w. id_p w = i) ws = None \<longleftrightarrow> i \<notin> id_p ` set ws"
  by (auto simp: find_None_iff)

lemma steps_pos: "0 < steps"
  by (simp add: steps_def)

subsection \<open>The grouping loop\<close>

lemma group_loop_returns_only_if:
  assumes "group_loop shuffled sz i result = Some y"
  shows "\<not> (sz \<le> 0 \<and> i < int (length shuffled))"
proof (rule group_loop.raw_induct[where P = "\<lambda>shuffled sz i result y.
          \<not> (sz \<le> 0 \<and> i < int (length shuffled))", OF _ assms], goal_cases)
  case (1 f xs s j r y)
  show ?case
  proof
    assume a: "s \<le> 0 \<and> j < int (length xs)"
    with 1(2) have "f xs s (j + s) (r @ [slice xs j (j + s)]) = Some y" by simp
    from 1(1)[OF this] a show False by simp
  qed
qed

lemma group_loop_None:
  "sz \<le> 0 \<Longrightarrow> i < int (length shuffled) \<Longrightarrow> group_loop shuffled sz i result = None"
  using group_loop_returns_only_if[of shuffled sz i result]
  by (cases "group_loop shuffled sz i result") auto

lemma slice_chunk:
  "0 \<le> i \<Longrightarrow> 0 \<le> sz \<Longrightarrow> slice xs i (i + sz) = take (nat sz) (drop (nat i) xs)"
  by (auto simp: slice_def Let_def min_def max_def take_drop)

lemma group_loop_chunks:
  "1 \<le> sz \<Longrightarrow>
     group_loop xs sz (int i) result = Some (result @ chunks (nat sz) (drop i xs))"
proof (induction "length xs - i" arbitrary: i result rule: less_induct)
  case less
  show ?case
  proof (cases "i < length xs")
    case True
    then obtain y ys where d: "drop i xs = y # ys" by (cases "drop i xs") auto
    define R where "R = result @ [slice xs (int i) (int i + sz)]"
    have step: "int (i + nat sz) = int i + sz" using less.prems by simp
    have sl: "slice xs (int i) (int i + sz) = take (nat sz) (drop i xs)"
      using slice_chunk[of "int i" sz xs] less.prems by simp
    have ch: "chunks (nat sz) (drop i xs) =
        take (nat sz) (drop i xs) # chunks (nat sz) (drop (i + nat sz) xs)"
    proof -
      have "drop (i + nat sz) xs = drop (nat sz) (drop i xs)" by (simp add: add.commute)
      then show ?thesis using d less.prems by simp
    qed
    have dec: "length xs - (i + nat sz) < length xs - i" using True less.prems by linarith
    have "group_loop xs sz (int i) result = group_loop xs sz (int i + sz) R"
      using True by (subst group_loop.simps) (simp add: R_def)
    also have "\<dots> = group_loop xs sz (int (i + nat sz)) R" by (simp only: step)
    also have "\<dots> = Some (R @ chunks (nat sz) (drop (i + nat sz) xs))"
      by (rule less.hyps[OF dec less.prems])
    also have "R @ chunks (nat sz) (drop (i + nat sz) xs) = result @ chunks (nat sz) (drop i xs)"
      by (simp add: R_def ch sl)
    finally show ?thesis .
  next
    case False
    then show ?thesis by (subst group_loop.simps) simp
  qed
qed

lemma concat_chunks: "0 < n \<Longrightarrow> concat (chunks n xs) = xs"
proof (induction "length xs" arbitrary: xs rule: less_induct)
  case less
  show ?case
  proof (cases xs)
    case Nil
    then show ?thesis by simp
  next
    case (Cons y ys)
    have "length (drop n xs) < length xs" using less.prems Cons by simp
    from less.hyps[OF this less.prems] show ?thesis using Cons less.prems by simp
  qed
qed

lemma chunks_sizes:
  "0 < n \<Longrightarrow> g \<in> set (chunks n xs) \<Longrightarrow> 1 \<le> length g \<and> length g \<le> n"
proof (induction "length xs" arbitrary: xs rule: less_induct)
  case less
  show ?case
  proof (cases xs)
    case Nil
    then show ?thesis using less.prems by simp
  next
    case (Cons y ys)
    have l: "length (drop n xs) < length xs" using less.prems Cons by simp
    show ?thesis using less.hyps[OF l less.prems(1)] less.prems Cons
      by (auto split: if_splits)
  qed
qed

lemma chunks_butlast:
  "0 < n \<Longrightarrow> g \<in> set (butlast (chunks n xs)) \<Longrightarrow> length g = n"
proof (induction "length xs" arbitrary: xs rule: less_induct)
  case less
  show ?case
  proof (cases xs)
    case Nil
    then show ?thesis using less.prems by simp
  next
    case outer: (Cons y ys)
    have l: "length (drop n xs) < length xs" using less.prems outer by simp
    show ?thesis
    proof (cases "drop n xs")
      case Nil
      then show ?thesis using less.prems outer by (auto split: if_splits)
    next
      case (Cons z zs)
      then have "n < length xs" by (metis drop_all list.distinct(1) not_le)
      then show ?thesis using less.hyps[OF l less.prems(1)] less.prems outer Cons
        by (auto split: if_splits)
    qed
  qed
qed

lemma chunks_single: "xs \<noteq> [] \<Longrightarrow> length xs \<le> n \<Longrightarrow> chunks n xs = [xs]"
  by (cases xs) auto

lemma chunks_Nil: "chunks n xs = [] \<longleftrightarrow> xs = [] \<or> n = 0"
  by (cases xs) auto

subsection \<open>Insertion sort returns a permutation\<close>

lemma mset_insert_by:
  "insert_by cmp x ys k = (zs, k') \<Longrightarrow> mset zs = add_mset x (mset ys)"
  by (induction ys arbitrary: k zs k') (auto split: prod.splits if_splits)

lemma mset_insertion_sort_from:
  "insertion_sort_from cmp xs k = (ys, k') \<Longrightarrow> mset ys = mset xs"
  by (induction xs arbitrary: k ys k') (auto split: prod.splits dest: mset_insert_by)

lemma mset_insertion_sort: "mset (insertion_sort cmp xs) = mset xs"
  by (cases "insertion_sort_from cmp xs 0")
     (simp add: insertion_sort_def mset_insertion_sort_from)

subsection \<open>Counting the draws\<close>

lemma card_random_values: "card (random_values b) = 2 ^ b"
proof -
  have "inj_on (\<lambda>m. (of_nat m :: rat) / 2 ^ b) {..<2 ^ b}"
    by (rule inj_onI) simp
  then show ?thesis by (simp add: random_values_def card_image)
qed

lemma card_draws: "card (draws b k) = 2 ^ (b * k)"
  by (simp add: draws_def card_PiE card_random_values power_mult)

lemma three_not_dvd_two_power: "\<not> 3 dvd (2::nat) ^ n"
proof
  assume "3 dvd (2::nat) ^ n"
  then have "(2::nat) ^ n mod 3 = 0" by presburger
  moreover have "(2::nat) ^ n mod 3 \<noteq> 0"
  proof (induction n)
    case 0
    show ?case by simp
  next
    case (Suc n)
    have "(2::nat) ^ Suc n mod 3 = (2 * (2 ^ n mod 3)) mod 3"
      by (simp add: mod_mult_right_eq)
    moreover have "(2::nat) ^ n mod 3 = 1 \<or> (2::nat) ^ n mod 3 = 2"
      using Suc by presburger
    ultimately show ?case by auto
  qed
  ultimately show False by simp
qed

lemma below_half_iff:
  assumes "1 \<le> b"
  shows "negative_draw (of_nat m / 2 ^ b) \<longleftrightarrow> m < 2 ^ (b - 1)"
proof -
  obtain c where b: "b = Suc c" using assms by (cases b) auto
  have "negative_draw (of_nat m / 2 ^ b) \<longleftrightarrow> (of_nat m :: rat) < 2 ^ c"
    by (simp add: negative_draw_def b field_simps)
  also have "\<dots> \<longleftrightarrow> (of_nat m :: rat) < of_nat (2 ^ c)" by simp
  also have "\<dots> \<longleftrightarrow> m < 2 ^ c" by (rule of_nat_less_iff)
  finally show ?thesis by (simp add: b)
qed

lemma inj_on_random_value: "inj_on (\<lambda>m. (of_nat m :: rat) / 2 ^ b) A"
  by (rule inj_onI) simp

lemma half_values_image:
  assumes "1 \<le> b"
  shows "half_values b below =
     (\<lambda>m. (of_nat m :: rat) / 2 ^ b) ` {m. m < 2 ^ b \<and> (m < 2 ^ (b - 1)) = below}"
proof (rule set_eqI)
  fix v :: rat
  show "v \<in> half_values b below \<longleftrightarrow>
      v \<in> (\<lambda>m. (of_nat m :: rat) / 2 ^ b) ` {m. m < 2 ^ b \<and> (m < 2 ^ (b - 1)) = below}"
  proof
    assume "v \<in> half_values b below"
    then have rv: "v \<in> random_values b" and hv: "negative_draw v = below"
      unfolding half_values_def by blast+
    from rv obtain m where m: "m < 2 ^ b" "v = of_nat m / 2 ^ b"
      unfolding random_values_def by blast
    have "(m < 2 ^ (b - 1)) = below"
      using hv below_half_iff[OF assms, of m] unfolding m(2) by blast
    with m show "v \<in> (\<lambda>m. (of_nat m :: rat) / 2 ^ b) ` {m. m < 2 ^ b \<and> (m < 2 ^ (b - 1)) = below}"
      by blast
  next
    assume "v \<in> (\<lambda>m. (of_nat m :: rat) / 2 ^ b) ` {m. m < 2 ^ b \<and> (m < 2 ^ (b - 1)) = below}"
    then obtain m where m: "m < 2 ^ b" "(m < 2 ^ (b - 1)) = below" "v = of_nat m / 2 ^ b"
      by blast
    have rv: "v \<in> random_values b"
      unfolding random_values_def using m(1,3) by blast
    have "negative_draw v = below"
      using m(2) below_half_iff[OF assms, of m] unfolding m(3) by blast
    with rv show "v \<in> half_values b below"
      unfolding half_values_def by blast
  qed
qed

lemma card_half_values:
  assumes "1 \<le> b"
  shows "card (half_values b below) = 2 ^ (b - 1)"
proof -
  have le: "(2::nat) ^ (b - 1) \<le> 2 ^ b" by (rule power_increasing) simp_all
  have dbl: "(2::nat) ^ b = 2 * 2 ^ (b - 1)" using assms by (cases b) auto
  have "card {m. m < (2::nat) ^ b \<and> (m < 2 ^ (b - 1)) = below} = 2 ^ (b - 1)"
  proof (cases below)
    case True
    have "{m. m < (2::nat) ^ b \<and> (m < 2 ^ (b - 1)) = True} = {..<2 ^ (b - 1)}"
      using le by (auto intro: less_le_trans)
    then show ?thesis using True by simp
  next
    case False
    have "{m. m < (2::nat) ^ b \<and> (m < 2 ^ (b - 1)) = False} = {2 ^ (b - 1)..<2 ^ b}"
      by auto
    then show ?thesis using False dbl by simp
  qed
  then show ?thesis
    unfolding half_values_image[OF assms]
    by (simp add: card_image inj_on_random_value)
qed

lemma finite_random_values: "finite (random_values b)"
  by (simp add: random_values_def)

lemma finite_half_values: "finite (half_values b below)"
  by (simp add: half_values_def finite_random_values)


lemma fiber_PiE:
  assumes "length s = k"
  shows "{rnd \<in> draws b k. \<forall>i<k. negative_draw (rnd i) = s ! i}
           = PiE {..<k} (\<lambda>i. half_values b (s ! i))"
proof (rule set_eqI)
  fix rnd
  show "rnd \<in> {rnd \<in> draws b k. \<forall>i<k. negative_draw (rnd i) = s ! i}
      \<longleftrightarrow> rnd \<in> PiE {..<k} (\<lambda>i. half_values b (s ! i))"
    unfolding draws_def PiE_iff half_values_def by auto
qed

lemma card_fiber:
  assumes "length s = k" "1 \<le> b"
  shows "card {rnd \<in> draws b k. \<forall>i<k. negative_draw (rnd i) = s ! i} = (2 ^ (b - 1)) ^ k"
  unfolding fiber_PiE[OF assms(1)]
  by (simp add: card_PiE card_half_values[OF assms(2)])

lemma finite_draws: "finite (draws b k)"
  unfolding draws_def by (rule finite_PiE) (simp_all add: finite_random_values)

lemma shuffle_sign_pattern:
  assumes dep: "\<forall>cmp cmp'. (\<forall>i<k. (cmp i < 0) = (cmp' i < 0)) \<longrightarrow>
                  array_sort cmp ns = array_sort cmp' ns"
    and len: "length s = k"
    and pat: "\<forall>i<k. negative_draw (rnd i) = s ! i"
  shows "shuffle array_sort rnd ns = shuffle array_sort (sign_source s) ns"
proof -
  have "negative_draw (sign_source s i) = s ! i" if "i < k" for i
    using that len by (simp add: sign_source_def negative_draw_def)
  then have "\<forall>i<k. ((rnd i - 1 / 2 < 0) = (sign_source s i - 1 / 2 < 0))"
    using pat unfolding negative_draw_def by blast
  then have "array_sort (\<lambda>i. rnd i - 1 / 2) ns = array_sort (\<lambda>i. sign_source s i - 1 / 2) ns"
    using spec[OF spec[OF dep, of "\<lambda>i. rnd i - 1 / 2"], of "\<lambda>i. sign_source s i - 1 / 2"]
    by simp
  then show ?thesis
    by (simp only: shuffle_def)
qed

lemma in_sign_patterns:
  "s \<in> set (sign_patterns array_sort k ns p) \<longleftrightarrow>
     length s = k \<and> shuffle array_sort (sign_source s) ns = p"
proof -
  have "set s \<subseteq> set [True, False]" by auto
  then show ?thesis by (simp add: sign_patterns_def set_n_lists)
qed

lemma card_sign_patterns:
  "card (set (sign_patterns array_sort k ns p)) = length (sign_patterns array_sort k ns p)"
proof -
  have "distinct (sign_patterns array_sort k ns p)"
    unfolding sign_patterns_def by (rule distinct_filter) (simp add: distinct_n_lists)
  then show ?thesis by (rule distinct_card)
qed

lemma event_as_union:
  assumes dep: "\<forall>cmp cmp'. (\<forall>i<k. (cmp i < 0) = (cmp' i < 0)) \<longrightarrow>
                  array_sort cmp ns = array_sort cmp' ns"
  shows "{rnd \<in> draws b k. shuffle array_sort rnd ns = p} =
     (\<Union>s\<in>set (sign_patterns array_sort k ns p).
        {rnd \<in> draws b k. \<forall>i<k. negative_draw (rnd i) = s ! i})"
proof (rule set_eqI)
  fix rnd
  show "rnd \<in> {rnd \<in> draws b k. shuffle array_sort rnd ns = p} \<longleftrightarrow>
     rnd \<in> (\<Union>s\<in>set (sign_patterns array_sort k ns p).
        {rnd \<in> draws b k. \<forall>i<k. negative_draw (rnd i) = s ! i})"
  proof
    assume "rnd \<in> {rnd \<in> draws b k. shuffle array_sort rnd ns = p}"
    then have d: "rnd \<in> draws b k" and e: "shuffle array_sort rnd ns = p" by blast+
    define s where "s = map (\<lambda>i. negative_draw (rnd i)) [0..<k]"
    have len: "length s = k" by (simp add: s_def)
    have pat: "\<forall>i<k. negative_draw (rnd i) = s ! i" by (simp add: s_def)
    have "shuffle array_sort (sign_source s) ns = p"
      using shuffle_sign_pattern[where array_sort = array_sort and ns = ns and k = k, OF dep len pat] e by simp
    then have "s \<in> set (sign_patterns array_sort k ns p)"
      using len by (simp add: in_sign_patterns)
    with d pat show "rnd \<in> (\<Union>s\<in>set (sign_patterns array_sort k ns p).
        {rnd \<in> draws b k. \<forall>i<k. negative_draw (rnd i) = s ! i})"
      by blast
  next
    assume "rnd \<in> (\<Union>s\<in>set (sign_patterns array_sort k ns p).
        {rnd \<in> draws b k. \<forall>i<k. negative_draw (rnd i) = s ! i})"
    then obtain s where s: "s \<in> set (sign_patterns array_sort k ns p)"
      and d: "rnd \<in> draws b k" and pat: "\<forall>i<k. negative_draw (rnd i) = s ! i"
      by blast
    from s have len: "length s = k" and e: "shuffle array_sort (sign_source s) ns = p"
      by (simp_all add: in_sign_patterns)
    have "shuffle array_sort rnd ns = p"
      using shuffle_sign_pattern[where array_sort = array_sort and ns = ns and k = k, OF dep len pat] e by simp
    with d show "rnd \<in> {rnd \<in> draws b k. shuffle array_sort rnd ns = p}" by blast
  qed
qed

lemma card_event:
  assumes dep: "\<forall>cmp cmp'. (\<forall>i<k. (cmp i < 0) = (cmp' i < 0)) \<longrightarrow>
                  array_sort cmp ns = array_sort cmp' ns"
    and b: "1 \<le> b"
  shows "card {rnd \<in> draws b k. shuffle array_sort rnd ns = p} =
     length (sign_patterns array_sort k ns p) * (2 ^ (b - 1)) ^ k"
proof -
  let ?S = "set (sign_patterns array_sort k ns p)"
  let ?F = "\<lambda>s. {rnd \<in> draws b k. \<forall>i<k. negative_draw (rnd i) = s ! i}"
  have fin: "\<forall>s\<in>?S. finite (?F s)"
    using finite_draws by simp
  have disj: "\<forall>s\<in>?S. \<forall>t\<in>?S. s \<noteq> t \<longrightarrow> ?F s \<inter> ?F t = {}"
  proof (intro ballI impI)
    fix s t assume s: "s \<in> ?S" and t: "t \<in> ?S" and ne: "s \<noteq> t"
    have ls: "length s = k" and lt: "length t = k"
      using s t by (simp_all add: in_sign_patterns)
    show "?F s \<inter> ?F t = {}"
    proof (rule ccontr)
      assume "?F s \<inter> ?F t \<noteq> {}"
      then obtain rnd where "rnd \<in> ?F s" "rnd \<in> ?F t"
        by blast
      then have "\<forall>i<k. s ! i = t ! i" by simp
      then have "s = t" using ls lt by (simp add: nth_equalityI)
      with ne show False by simp
    qed
  qed
  have "card {rnd \<in> draws b k. shuffle array_sort rnd ns = p} = card (\<Union>s\<in>?S. ?F s)"
    by (simp only: event_as_union[where array_sort = array_sort and ns = ns and k = k, OF dep])
  also have "\<dots> = (\<Sum>s\<in>?S. card (?F s))"
    by (rule card_UN_disjoint[OF _ fin disj]) simp
  also have "\<dots> = (\<Sum>s\<in>?S. (2 ^ (b - 1)) ^ k)"
    by (rule sum.cong) (simp_all add: in_sign_patterns card_fiber[OF _ b])
  also have "\<dots> = length (sign_patterns array_sort k ns p) * (2 ^ (b - 1)) ^ k"
    by (simp add: card_sign_patterns)
  finally show ?thesis .
qed

lemma card_draws_halves:
  assumes "1 \<le> b"
  shows "card (draws b k) = 2 ^ k * (2 ^ (b - 1)) ^ k"
proof -
  have "(2::nat) ^ b = 2 * 2 ^ (b - 1)" using assms by (cases b) auto
  then have "(2::nat) ^ (b * k) = 2 ^ k * (2 ^ (b - 1)) ^ k"
    by (simp add: power_mult power_mult_distrib)
  then show ?thesis by (simp add: card_draws)
qed

lemma dyadic_gap:
  assumes "3 \<le> n"
  shows "1 / (2 ^ k * fact n) \<le> \<bar>real c / 2 ^ k - 1 / fact n\<bar>"
proof -
  have ne: "c * fact n \<noteq> 2 ^ k"
  proof
    assume eq: "c * fact n = 2 ^ k"
    have "(3::nat) dvd fact n" using assms by (simp add: dvd_fact)
    then have "3 dvd c * fact n" by simp
    with eq show False using three_not_dvd_two_power[of k] by simp
  qed
  then have "int (c * fact n) \<noteq> int (2 ^ k)"
    using of_nat_eq_iff by blast
  then have "1 \<le> \<bar>int (c * fact n) - int (2 ^ k)\<bar>" by linarith
  then have "(1::real) \<le> of_int \<bar>int (c * fact n) - int (2 ^ k)\<bar>"
    by (simp only: of_int_1_le_iff)
  then have one: "1 \<le> \<bar>real c * fact n - 2 ^ k\<bar>" by simp
  have pos: "0 < (2::real) ^ k * fact n" by simp
  have "real c / 2 ^ k - 1 / fact n = (real c * fact n - 2 ^ k) / (2 ^ k * fact n)"
    by (simp add: field_simps)
  then have "\<bar>real c / 2 ^ k - 1 / fact n\<bar> = \<bar>real c * fact n - 2 ^ k\<bar> / (2 ^ k * fact n)"
    by (simp add: abs_mult)
  also have "\<dots> \<ge> 1 / (2 ^ k * fact n)"
    using one pos by (simp add: divide_right_mono)
  finally show ?thesis .
qed

lemma insertion_sort_three_signs:
  "\<forall>cmp cmp'. (\<forall>i<3. (cmp i < 0) = (cmp' i < 0)) \<longrightarrow>
      insertion_sort cmp [x, y, z] = insertion_sort cmp' [x, y, z]"
proof (intro allI impI)
  fix cmp cmp' :: "nat \<Rightarrow> rat"
  assume h: "\<forall>i<3. (cmp i < 0) = (cmp' i < 0)"
  have c0: "(cmp 0 < 0) = (cmp' 0 < 0)"
    and c1: "(cmp (Suc 0) < 0) = (cmp' (Suc 0) < 0)"
    and c2: "(cmp (Suc (Suc 0)) < 0) = (cmp' (Suc (Suc 0)) < 0)"
    using h by simp_all
  show "insertion_sort cmp [x, y, z] = insertion_sort cmp' [x, y, z]"
    by (simp add: insertion_sort_def c0 c1 c2)
qed

section \<open>The claims\<close>

text \<open>
  The engine's sort is an argument of \<open>shuffle\<close> and \<open>generateGroups\<close>. What the theorems
  below need of it is stated where they need it: for the partition, that the array it
  returns is a permutation of the array it was given, which the language guarantees also
  for a comparator that is not consistent; for the distribution of the orders, that it
  reads of the comparator's values only whether they are negative. The source of random
  numbers is an argument too, and the theorems about the draw take from it what the
  language guarantees of \<^verbatim>\<open>Math.random()\<close>: every value is at least 0 and below 1.
\<close>

subsection \<open>C1\<close>

text \<open>
  C1 says that the order in which \<open>generateGroups\<close> chunks the roster is a uniformly random
  permutation of the roster: every one of the \<open>n!\<close> orders of a roster of \<open>n\<close> distinct
  participants has the probability \<open>1 / n!\<close>.

  The code sorts with a comparator that returns \<^verbatim>\<open>Math.random() - 0.5\<close>, which is negative
  for the draws below one half. Take a sort that reads of the comparator only whether each
  of its first \<open>k\<close> values is negative, as the tests \<^verbatim>\<open>order < 0\<close> of an insertion sort or
  of a merge sort do: the order it returns is a function of \<open>k\<close> signs. Half of the values
  of a source with \<open>b\<close> random bits are below one half, so the signs are \<open>k\<close> fair coins
  whatever \<open>b\<close> is, and the probability of an order \<open>p\<close> is the number of sign sequences
  that lead to \<open>p\<close>, divided by \<open>2 ^ k\<close>. For a roster of three or more participants that is
  at least \<open>1 / (2 ^ k * n!)\<close> away from \<open>1 / n!\<close>, whatever the number of bits: a finer
  source brings the order no closer to uniform. A shuffle that draws an index from each
  random number reads the values and not only their signs; the hypothesis on the sort
  leaves it out.
\<close>

theorem shuffle_sign_only_not_uniform:
  assumes "1 \<le> b"
    and "3 \<le> length ns"
    and "\<forall>cmp cmp'. (\<forall>i<k. (cmp i < 0) = (cmp' i < 0)) \<longrightarrow>
           array_sort cmp ns = array_sort cmp' ns"
  shows "real (card {rnd \<in> draws b k. shuffle array_sort rnd ns = p}) / real (card (draws b k))
           = real (length (sign_patterns array_sort k ns p)) / 2 ^ k
       \<and> 1 / (2 ^ k * fact (length ns))
           \<le> \<bar>real (card {rnd \<in> draws b k. shuffle array_sort rnd ns = p}) / real (card (draws b k))
               - 1 / fact (length ns)\<bar>"
proof -
  have pos: "0 < real ((2 ^ (b - 1)) ^ k)" by simp
  have eq: "real (card {rnd \<in> draws b k. shuffle array_sort rnd ns = p}) / real (card (draws b k))
      = real (length (sign_patterns array_sort k ns p)) / 2 ^ k"
    unfolding card_event[where array_sort = array_sort and ns = ns and k = k, OF assms(3,1)] card_draws_halves[OF assms(1)]
    using pos by simp
  show ?thesis
    unfolding eq using dyadic_gap[OF assms(2)] by simp
qed

theorem shuffle_sign_only_not_uniform_witness:
  "(1::nat) \<le> 53
   \<and> 3 \<le> length [alice, bob, carol]
   \<and> real (card {rnd \<in> draws 53 3. shuffle insertion_sort rnd [alice, bob, carol] = [alice, bob, carol]})
        / real (card (draws 53 3)) = 1 / 4
   \<and> real (card {rnd \<in> draws 53 3. shuffle insertion_sort rnd [alice, bob, carol] = [carol, bob, alice]})
        / real (card (draws 53 3)) = 1 / 8"
proof -
  have h1: "(1::nat) \<le> 53" by simp
  have h2: "3 \<le> length [alice, bob, carol]" by simp
  have h3: "\<forall>cmp cmp'. (\<forall>i<3. (cmp i < 0) = (cmp' i < 0)) \<longrightarrow>
          insertion_sort cmp [alice, bob, carol] = insertion_sort cmp' [alice, bob, carol]"
    by (rule insertion_sort_three_signs)
  have n1: "length (sign_patterns insertion_sort 3 [alice, bob, carol] [alice, bob, carol]) = 2"
    by code_simp
  have n2: "length (sign_patterns insertion_sort 3 [alice, bob, carol] [carol, bob, alice]) = 1"
    by code_simp
  have p1: "real (card {rnd \<in> draws 53 3. shuffle insertion_sort rnd [alice, bob, carol] = [alice, bob, carol]})
        / real (card (draws 53 3)) = 1 / 4"
    using shuffle_sign_only_not_uniform[where array_sort = insertion_sort and k = 3
        and ns = "[alice, bob, carol]" and p = "[alice, bob, carol]", OF h1 h2 h3]
    unfolding n1 by simp
  have p2: "real (card {rnd \<in> draws 53 3. shuffle insertion_sort rnd [alice, bob, carol] = [carol, bob, alice]})
        / real (card (draws 53 3)) = 1 / 8"
    using shuffle_sign_only_not_uniform[where array_sort = insertion_sort and k = 3
        and ns = "[alice, bob, carol]" and p = "[carol, bob, alice]", OF h1 h2 h3]
    unfolding n2 by simp
  from h1 h2 p1 p2 show ?thesis by (intro conjI)
qed

subsection \<open>C2\<close>

text \<open>
  C2 says that \<open>generateGroups\<close> signals an error of the kind InvalidSize for every size
  below 1. The code has no such signal. The size field replaces 0 and what is not a number
  by 1 and lets a negative number through; with a roster that is not empty and a size
  below 1 the index of the loop never reaches the length of the array, so the loop never
  ends: \<open>generateGroups\<close> returns neither a group set nor an error.
\<close>

theorem generateGroups_size_below_one_never_returns:
  assumes "names st \<noteq> []"
    and "groupSize st < 1"
    and "mset (shuffle array_sort rnd (names st)) = mset (names st)"
  shows "generateGroups array_sort rnd st = None"
proof -
  have "length (shuffle array_sort rnd (names st)) = length (names st)"
    using assms(3) mset_eq_length by blast
  then have "0 < int (length (shuffle array_sort rnd (names st)))"
    using assms(1) by simp
  then have "group_loop (shuffle array_sort rnd (names st)) (groupSize st) 0 [] = None"
    using assms(2) by (intro group_loop_None) simp_all
  then show ?thesis using assms(1) by (simp add: generateGroups_def Let_def)
qed

theorem generateGroups_size_below_one_never_returns_witness:
  "groupSize (setGroupSize (Some (- 1)) (initial\<lparr>names := [alice]\<rparr>)) = - 1
   \<and> generateGroups insertion_sort always_half
        (setGroupSize (Some (- 1)) (initial\<lparr>names := [alice]\<rparr>)) = None"
proof -
  define st where "st = setGroupSize (Some (- 1)) (initial\<lparr>names := [alice]\<rparr>)"
  have h1: "names st \<noteq> []" by (simp add: st_def setGroupSize_def)
  have h2: "groupSize st < 1" by (simp add: st_def setGroupSize_def)
  have h3: "mset (shuffle insertion_sort always_half (names st)) = mset (names st)"
    by (simp add: shuffle_def mset_insertion_sort)
  have "groupSize st = - 1" by (simp add: st_def setGroupSize_def)
  then show ?thesis
    using generateGroups_size_below_one_never_returns[OF h1 h2 h3] unfolding st_def by simp
qed

subsection \<open>C3\<close>

text \<open>
  C3 says that \<open>duplicates\<close> holds every duplicated name exactly once. It does not: a name
  borne by three participants is in it twice.
\<close>

theorem duplicates_repeated_counterexample:
  "\<not> distinct (duplicates [alice, alice2, alice3])"
  by code_simp

text \<open>
  C3 as amended: \<open>duplicates\<close> is a list that holds a name once for every participant who
  bears it after the first one, so a name borne by \<open>k\<close> participants is in it \<open>k - 1\<close>
  times. The names in it are exactly those borne by two or more participants, and it is
  empty if and only if the names of the roster are pairwise distinct.
\<close>

theorem duplicates_later_occurrences:
  "set (duplicates ns) = {x. 2 \<le> count_list (map name ns) x}
   \<and> (\<forall>x. count_list (duplicates ns) x = count_list (map name ns) x - 1)
   \<and> (duplicates ns = [] \<longleftrightarrow> distinct (map name ns))"
  by (simp add: duplicates_later_copies set_later_copies count_later_copies later_copies_Nil)

theorem duplicates_later_occurrences_witness:
  "duplicates [alice, bob, alice2, alice3] = [''Alice'', ''Alice'']
   \<and> count_list (duplicates [alice, bob, alice2, alice3]) ''Alice'' = 2
   \<and> count_list (duplicates [alice, bob, alice2, alice3]) ''Bob'' = 0
   \<and> duplicates [alice, bob, carol] = []"
proof -
  have d: "duplicates [alice, bob, alice2, alice3] = [''Alice'', ''Alice'']"
    by code_simp
  have a: "count_list (map name [alice, bob, alice2, alice3]) ''Alice'' = 3"
    by code_simp
  have b: "count_list (map name [alice, bob, alice2, alice3]) ''Bob'' = 1"
    by code_simp
  have c: "distinct (map name [alice, bob, carol])"
    by code_simp
  show ?thesis
    using duplicates_later_occurrences[of "[alice, bob, alice2, alice3]"]
      duplicates_later_occurrences[of "[alice, bob, carol]"] a b c d
    by simp
qed

subsection \<open>C4\<close>

text \<open>
  C4 says that \<open>generateGroups\<close> on an empty roster replaces the group set by the empty one.
  The code returns at once on an empty roster and leaves the group set it had.
\<close>

theorem generateGroups_empty_roster_counterexample:
  "map_option groups (generateGroups insertion_sort always_half
      (initial\<lparr>groupSize := 2, groups := [[alice, bob], [carol]]\<rparr>)) \<noteq> Some []"
  by code_simp

text \<open>
  C4 as amended: for every size, \<open>generateGroups\<close> on an empty roster is not an error and
  changes nothing; the group set stays what it was, empty or not.
\<close>

theorem generateGroups_empty_roster:
  "names st = [] \<Longrightarrow> generateGroups array_sort rnd st = Some st"
  by (simp add: generateGroups_def)

theorem generateGroups_empty_roster_witness:
  "names (initial\<lparr>groupSize := 2, groups := [[alice, bob], [carol]]\<rparr>) = []
   \<and> generateGroups insertion_sort always_half (initial\<lparr>groupSize := 2, groups := [[alice, bob], [carol]]\<rparr>)
      = Some (initial\<lparr>groupSize := 2, groups := [[alice, bob], [carol]]\<rparr>)"
proof -
  have h: "names (initial\<lparr>groupSize := 2, groups := [[alice, bob], [carol]]\<rparr>) = []"
    by (simp add: initial_def)
  show ?thesis using h generateGroups_empty_roster[OF h, of insertion_sort always_half] by simp
qed

subsection \<open>C5\<close>

text \<open>
  C5 says that the draw signals NoCandidates whenever the pool is empty, also when the
  roster is empty. On an empty roster the code returns before it looks at the pool and
  shows nothing.
\<close>

theorem startDraw_empty_roster_counterexample:
  "fst (startDraw always_half initial) \<noteq> NoCandidates
   \<and> startDraw always_half initial = (Ignored, initial)"
  by code_simp

text \<open>
  C5 as amended: on an empty roster the draw returns without a message and changes
  nothing. On a roster that is not empty, when repeats are not allowed and the id of every
  participant of the roster is in the winner record, the draw signals NoCandidates and
  changes nothing. In every other case the draw gives a winner: these two are the only
  cases in which it does not.
\<close>

theorem startDraw_outcomes:
  assumes "\<forall>i. 0 \<le> rnd i \<and> rnd i < 1"
  shows "(names st = [] \<longrightarrow> startDraw rnd st = (Ignored, st))
     \<and> (names st \<noteq> [] \<and> \<not> allowRepeat st \<and> id_p ` set (names st) \<subseteq> id_p ` set (winners st)
          \<longrightarrow> startDraw rnd st = (NoCandidates, st))
     \<and> (names st \<noteq> [] \<and> (allowRepeat st \<or> \<not> id_p ` set (names st) \<subseteq> id_p ` set (winners st))
          \<longrightarrow> (\<exists>w. fst (startDraw rnd st) = Winner w))"
proof (intro conjI impI)
  assume "names st = []"
  then show "startDraw rnd st = (Ignored, st)" by (simp add: startDraw_def)
next
  assume a: "names st \<noteq> [] \<and> \<not> allowRepeat st \<and> id_p ` set (names st) \<subseteq> id_p ` set (winners st)"
  then have "filter (\<lambda>n. find (\<lambda>w. id_p w = id_p n) (winners st) = None) (names st) = []"
    by (auto simp: find_None_ids filter_empty_conv)
  with a show "startDraw rnd st = (NoCandidates, st)" by (simp add: startDraw_def)
next
  assume a: "names st \<noteq> [] \<and> (allowRepeat st \<or> \<not> id_p ` set (names st) \<subseteq> id_p ` set (winners st))"
  define avail where "avail =
     (if allowRepeat st then names st
      else filter (\<lambda>n. find (\<lambda>w. id_p w = id_p n) (winners st) = None) (names st))"
  have ne: "avail \<noteq> []"
    using a by (auto simp: avail_def find_None_ids filter_empty_conv)
  obtain w where "timer_ticks rnd avail 0 (st\<lparr>isDrawing := True\<rparr>) =
      (Winner w, st\<lparr>isDrawing := True\<rparr>\<lparr>winners := w # winners (st\<lparr>isDrawing := True\<rparr>),
                           currentCandidate := Some (name w), isDrawing := False\<rparr>)"
    using timer_ticks_final[OF assms ne steps_pos, of "st\<lparr>isDrawing := True\<rparr>"] by blast
  then show "\<exists>w. fst (startDraw rnd st) = Winner w"
    using a ne by (auto simp: startDraw_def avail_def Let_def)
qed

theorem startDraw_outcomes_witness:
  "(\<forall>i. 0 \<le> always_half i \<and> always_half i < 1)
   \<and> startDraw always_half (initial\<lparr>names := [alice, bob], winners := [bob, alice]\<rparr>)
       = (NoCandidates, initial\<lparr>names := [alice, bob], winners := [bob, alice]\<rparr>)
   \<and> startDraw always_half (initial\<lparr>winners := [bob, alice]\<rparr>)
       = (Ignored, initial\<lparr>winners := [bob, alice]\<rparr>)"
proof -
  have h: "\<forall>i. 0 \<le> always_half i \<and> always_half i < 1"
    by (simp add: always_half_def)
  show ?thesis
    using h startDraw_outcomes[OF h, of "initial\<lparr>names := [alice, bob], winners := [bob, alice]\<rparr>"]
      startDraw_outcomes[OF h, of "initial\<lparr>winners := [bob, alice]\<rparr>"]
    by (simp add: initial_def alice_def bob_def)
qed

subsection \<open>C6\<close>

text \<open>
  C6: when repeats are not allowed and some participant of the roster has an id that is
  not in the winner record, the draw gives a winner who is a participant of the roster
  and whose id is not in the winner record, and puts the winner in front of the winner
  record; the roster stays as it is. When the pool has one participant only, that one is
  the winner, whatever the random numbers are.
\<close>

theorem startDraw_winner:
  assumes "\<forall>i. 0 \<le> rnd i \<and> rnd i < 1"
    and "\<not> allowRepeat st"
    and "\<exists>n\<in>set (names st). id_p n \<notin> id_p ` set (winners st)"
  shows "\<exists>w. startDraw rnd st =
            (Winner w, st\<lparr>winners := w # winners st,
                          currentCandidate := Some (name w), isDrawing := False\<rparr>)
          \<and> w \<in> set (names st)
          \<and> id_p w \<notin> id_p ` set (winners st)
          \<and> (\<forall>p. filter (\<lambda>n. id_p n \<notin> id_p ` set (winners st)) (names st) = [p] \<longrightarrow> w = p)"
proof -
  define avail where "avail = filter (\<lambda>n. id_p n \<notin> id_p ` set (winners st)) (names st)"
  have av: "filter (\<lambda>n. find (\<lambda>w. id_p w = id_p n) (winners st) = None) (names st) = avail"
    by (simp add: avail_def find_None_ids)
  have ne: "avail \<noteq> []"
    using assms(3) by (auto simp: avail_def filter_empty_conv)
  have nn: "names st \<noteq> []" using assms(3) by auto
  obtain w where w: "w \<in> set avail"
    "timer_ticks rnd avail 0 (st\<lparr>isDrawing := True\<rparr>) =
      (Winner w, st\<lparr>isDrawing := True\<rparr>\<lparr>winners := w # winners (st\<lparr>isDrawing := True\<rparr>),
                           currentCandidate := Some (name w), isDrawing := False\<rparr>)"
    using timer_ticks_final[OF assms(1) ne steps_pos, of "st\<lparr>isDrawing := True\<rparr>"] by blast
  have "startDraw rnd st =
            (Winner w, st\<lparr>winners := w # winners st,
                          currentCandidate := Some (name w), isDrawing := False\<rparr>)"
    using w(2) ne nn assms(2) by (simp add: startDraw_def av)
  moreover have "w \<in> set (names st)" "id_p w \<notin> id_p ` set (winners st)"
    using w(1) by (auto simp: avail_def)
  moreover have "\<forall>p. avail = [p] \<longrightarrow> w = p"
    using w(1) by auto
  ultimately show ?thesis unfolding avail_def by blast
qed

theorem startDraw_winner_witness:
  "(\<forall>i. 0 \<le> always_half i \<and> always_half i < 1)
   \<and> \<not> allowRepeat (initial\<lparr>names := [alice, bob], winners := [alice]\<rparr>)
   \<and> (\<exists>n\<in>set (names (initial\<lparr>names := [alice, bob], winners := [alice]\<rparr>)).
         id_p n \<notin> id_p ` set (winners (initial\<lparr>names := [alice, bob], winners := [alice]\<rparr>)))
   \<and> startDraw always_half (initial\<lparr>names := [alice, bob], winners := [alice]\<rparr>)
       = (Winner bob, initial\<lparr>names := [alice, bob], winners := [bob, alice],
                        currentCandidate := Some ''Bob''\<rparr>)"
proof -
  define st where "st = initial\<lparr>names := [alice, bob], winners := [alice]\<rparr>"
  have h1: "\<forall>i. 0 \<le> always_half i \<and> always_half i < 1"
    by (simp add: always_half_def)
  have h2: "\<not> allowRepeat st"
    by (simp add: st_def initial_def)
  have h3: "\<exists>n\<in>set (names st). id_p n \<notin> id_p ` set (winners st)"
    by (simp add: st_def alice_def bob_def)
  have pool: "filter (\<lambda>n. id_p n \<notin> id_p ` set (winners st)) (names st) = [bob]"
    by (simp add: st_def alice_def bob_def)
  from startDraw_winner[OF h1 h2 h3] pool
  have "startDraw always_half st =
            (Winner bob, st\<lparr>winners := bob # winners st,
                          currentCandidate := Some (name bob), isDrawing := False\<rparr>)"
    by auto
  then show ?thesis using h1 h2 h3 unfolding st_def by (simp add: initial_def bob_def)
qed

subsection \<open>C7\<close>

text \<open>
  C7: for a roster that is not empty and a size of 1 or more, \<open>generateGroups\<close> returns, and
  its groups partition the roster. The groups in order are the shuffled roster, which has
  the participants and the ids of the roster, each as often as the roster has it; every
  group but the last has exactly \<open>size\<close> members and the last has between 1 and \<open>size\<close>;
  a size above the length of the roster gives one group with everybody.
\<close>

theorem generateGroups_partitions:
  assumes "names st \<noteq> []"
    and "1 \<le> groupSize st"
    and "mset (shuffle array_sort rnd (names st)) = mset (names st)"
  shows "\<exists>gs. generateGroups array_sort rnd st = Some (st\<lparr>groups := gs\<rparr>)
          \<and> concat gs = shuffle array_sort rnd (names st)
          \<and> mset (concat gs) = mset (names st)
          \<and> mset (map id_p (concat gs)) = mset (map id_p (names st))
          \<and> gs \<noteq> []
          \<and> (\<forall>g\<in>set (butlast gs). int (length g) = groupSize st)
          \<and> 1 \<le> length (last gs) \<and> int (length (last gs)) \<le> groupSize st
          \<and> (int (length (names st)) < groupSize st \<longrightarrow> gs = [shuffle array_sort rnd (names st)])"
proof -
  define shuffled where "shuffled = shuffle array_sort rnd (names st)"
  define n where "n = nat (groupSize st)"
  define gs where "gs = chunks n shuffled"
  have npos: "0 < n" using assms(2) by (simp add: n_def)
  have len: "length shuffled = length (names st)"
    using assms(3) mset_eq_length unfolding shuffled_def by blast
  have sne: "shuffled \<noteq> []" using len assms(1) by auto
  have loop: "group_loop shuffled (groupSize st) 0 [] = Some gs"
    using group_loop_chunks[OF assms(2), of shuffled 0 "[]"] by (simp add: gs_def n_def)
  have 1: "generateGroups array_sort rnd st = Some (st\<lparr>groups := gs\<rparr>)"
    using assms(1) loop by (simp add: generateGroups_def shuffled_def[symmetric] Let_def)
  have 2: "concat gs = shuffled" by (simp add: gs_def concat_chunks npos)
  have 3: "gs \<noteq> []" using sne npos by (simp add: gs_def chunks_Nil)
  have 4: "\<forall>g\<in>set (butlast gs). int (length g) = groupSize st"
    using chunks_butlast[OF npos, of _ shuffled] assms(2) by (auto simp: gs_def n_def)
  have "last gs \<in> set gs" using 3 by simp
  then have 5: "1 \<le> length (last gs) \<and> int (length (last gs)) \<le> groupSize st"
    using chunks_sizes[OF npos, of "last gs" shuffled] assms(2) by (auto simp: gs_def n_def)
  have 6: "int (length (names st)) < groupSize st \<longrightarrow> gs = [shuffled]"
    using chunks_single[OF sne, of n] len by (auto simp: gs_def n_def)
  have 7: "mset (concat gs) = mset (names st)"
    using 2 assms(3) by (simp add: shuffled_def)
  then have 8: "mset (map id_p (concat gs)) = mset (map id_p (names st))"
    by (metis mset_map)
  from 1 2 3 4 5 6 7 8 show ?thesis unfolding shuffled_def by blast
qed

theorem generateGroups_partitions_witness:
  "names (initial\<lparr>names := [alice, bob, carol, alice2, alice3], groupSize := 2\<rparr>) \<noteq> []
   \<and> 1 \<le> groupSize (initial\<lparr>names := [alice, bob, carol, alice2, alice3], groupSize := 2\<rparr>)
   \<and> mset (shuffle insertion_sort halving
         (names (initial\<lparr>names := [alice, bob, carol, alice2, alice3], groupSize := 2\<rparr>)))
        = mset (names (initial\<lparr>names := [alice, bob, carol, alice2, alice3], groupSize := 2\<rparr>))
   \<and> generateGroups insertion_sort halving
        (initial\<lparr>names := [alice, bob, carol, alice2, alice3], groupSize := 2\<rparr>)
      = Some (initial\<lparr>names := [alice, bob, carol, alice2, alice3], groupSize := 2,
                groups := [[alice, bob], [carol, alice3], [alice2]]\<rparr>)
   \<and> (\<exists>gs. generateGroups insertion_sort halving
        (initial\<lparr>names := [alice, bob, carol, alice2, alice3], groupSize := 2\<rparr>)
      = Some (initial\<lparr>names := [alice, bob, carol, alice2, alice3], groupSize := 2\<rparr>\<lparr>groups := gs\<rparr>)
        \<and> mset (concat gs) = mset [alice, bob, carol, alice2, alice3])"
proof -
  define st where "st = initial\<lparr>names := [alice, bob, carol, alice2, alice3], groupSize := 2\<rparr>"
  have n: "names st = [alice, bob, carol, alice2, alice3]"
    by (simp add: st_def)
  have h1: "names st \<noteq> []"
    by (simp add: n)
  have h2: "1 \<le> groupSize st"
    by (simp add: st_def)
  have h3: "mset (shuffle insertion_sort halving (names st)) = mset (names st)"
    by (simp only: shuffle_def mset_insertion_sort)
  have ev: "generateGroups insertion_sort halving st
      = Some (st\<lparr>groups := [[alice, bob], [carol, alice3], [alice2]]\<rparr>)"
    unfolding st_def by code_simp
  have ev': "generateGroups insertion_sort halving st
      = Some (initial\<lparr>names := [alice, bob, carol, alice2, alice3], groupSize := 2,
                groups := [[alice, bob], [carol, alice3], [alice2]]\<rparr>)"
    unfolding ev by (simp only: st_def)
  obtain gs where gs: "generateGroups insertion_sort halving st = Some (st\<lparr>groups := gs\<rparr>)"
    and ms: "mset (concat gs) = mset (names st)"
    using generateGroups_partitions[OF h1 h2 h3] by (elim exE conjE)
  have ex: "\<exists>gs. generateGroups insertion_sort halving st = Some (st\<lparr>groups := gs\<rparr>)
        \<and> mset (concat gs) = mset [alice, bob, carol, alice2, alice3]"
    using gs ms unfolding n by (intro exI conjI)
  show ?thesis
    using h1 h2 h3 ev' ex unfolding st_def by (intro conjI)
qed

subsection \<open>C8\<close>

text \<open>
  C8: \<open>removeDuplicates\<close> keeps the participants whose name no earlier participant bears, in
  the order of the roster, and removing duplicates twice is removing them once.
\<close>

theorem removeDuplicates_keeps_first:
  "names (removeDuplicates st) =
     map (\<lambda>i. names st ! i)
       (filter (\<lambda>i. \<forall>j<i. name (names st ! j) \<noteq> name (names st ! i)) [0..<length (names st)])
   \<and> subseq (names (removeDuplicates st)) (names st)
   \<and> removeDuplicates (removeDuplicates st) = removeDuplicates st"
  by (simp add: removeDuplicates_def uniqueNames_first_index[symmetric] uniqueNames_subseq
      uniqueNames_idem)

theorem removeDuplicates_keeps_first_witness:
  "names (removeDuplicates (initial\<lparr>names := [alice, bob, alice2, carol, bob]\<rparr>))
     = [alice, bob, carol]
   \<and> removeDuplicates (removeDuplicates (initial\<lparr>names := [alice, bob, alice2, carol, bob]\<rparr>))
     = removeDuplicates (initial\<lparr>names := [alice, bob, alice2, carol, bob]\<rparr>)"
proof -
  define st where "st = initial\<lparr>names := [alice, bob, alice2, carol, bob]\<rparr>"
  have n: "names st = [alice, bob, alice2, carol, bob]"
    by (simp add: st_def)
  have e: "map (\<lambda>i. names st ! i)
       (filter (\<lambda>i. \<forall>j<i. name (names st ! j) \<noteq> name (names st ! i)) [0..<length (names st)])
     = [alice, bob, carol]"
    unfolding n
    by (simp add: upt_rec numeral_nat All_less_Suc nth_Cons' alice_def bob_def alice2_def carol_def)
  have "names (removeDuplicates st) = [alice, bob, carol]"
    using removeDuplicates_keeps_first[of st] e by simp
  moreover have "removeDuplicates (removeDuplicates st) = removeDuplicates st"
    using removeDuplicates_keeps_first[of st] by simp
  ultimately show ?thesis unfolding st_def by simp
qed

subsection \<open>C9\<close>

text \<open>
  C9 says that two participants never have the same id, whatever the source of random
  numbers returns. The id is computed from the random number alone, so a source that
  returns a number twice gives two participants the same id.
\<close>

theorem add_calls_same_draw_counterexample:
  "\<not> distinct (map id_p (names (add_calls digits36 always_half [AddFromText ''Alice,Bob''] initial)))
   \<and> names (add_calls digits36 always_half [AddFromText ''Alice,Bob''] initial)
       = [\<lparr>id_p = ''i'', name = ''Alice''\<rparr>, \<lparr>id_p = ''i'', name = ''Bob''\<rparr>]"
  by code_simp

text \<open>
  C9 as amended: the id of a participant is the text of up to nine characters that follows
  the first two characters of the base 36 digits of the random number drawn when the
  participant is created. After any sequence of additions the ids of the participants
  added are those texts for the successive random numbers, in order; starting from the
  empty roster, the ids are pairwise distinct if and only if those texts are.
\<close>

theorem add_calls_ids:
  "map id_p (names (add_calls toString36 rnd cs st)) =
     map id_p (names st) @ map (\<lambda>i. substr (toString36 (rnd i)) 2 9)
        [0..<length (names (add_calls toString36 rnd cs st)) - length (names st)]
   \<and> (distinct (map id_p (names (add_calls toString36 rnd cs initial))) \<longleftrightarrow>
        inj_on (\<lambda>i. substr (toString36 (rnd i)) 2 9)
          {..<length (names (add_calls toString36 rnd cs initial))})"
proof -
  obtain m where m: "length (names (add_calls toString36 rnd cs st)) = length (names st) + m"
     "map id_p (names (add_calls toString36 rnd cs st)) =
       map id_p (names st) @ map (\<lambda>i. substr (toString36 (rnd i)) 2 9) [0..<m]"
    using add_calls_ids_from[of toString36 rnd cs st] by blast
  obtain m0 where m0:
     "length (names (add_calls toString36 rnd cs initial)) = length (names initial) + m0"
     "map id_p (names (add_calls toString36 rnd cs initial)) =
       map id_p (names initial) @ map (\<lambda>i. substr (toString36 (rnd i)) 2 9) [0..<m0]"
    using add_calls_ids_from[of toString36 rnd cs initial] by blast
  have i0: "names initial = []" by (simp add: initial_def)
  have a: "map id_p (names (add_calls toString36 rnd cs st)) =
     map id_p (names st) @ map (\<lambda>i. substr (toString36 (rnd i)) 2 9)
        [0..<length (names (add_calls toString36 rnd cs st)) - length (names st)]"
    using m by simp
  have b: "distinct (map id_p (names (add_calls toString36 rnd cs initial))) \<longleftrightarrow>
        inj_on (\<lambda>i. substr (toString36 (rnd i)) 2 9)
          {..<length (names (add_calls toString36 rnd cs initial))}"
    using m0 i0 by (simp add: distinct_map atLeast0LessThan)
  from a b show ?thesis by blast
qed

theorem add_calls_ids_witness:
  "map id_p (names (add_calls digits36 halving
       [AddFromText ''Alice,Bob'', AddFromRows [[''Carol'', '' ''], [''Dan '']]] initial))
     = [''i'', ''9'', ''4i'', ''29'']
   \<and> map name (names (add_calls digits36 halving
       [AddFromText ''Alice,Bob'', AddFromRows [[''Carol'', '' ''], [''Dan '']]] initial))
     = [''Alice'', ''Bob'', ''Carol'', ''Dan'']"
proof -
  have "map (\<lambda>i. substr (digits36 (halving i)) 2 9) [0..<4] = [''i'', ''9'', ''4i'', ''29'']"
    by code_simp
  moreover have "names (add_calls digits36 halving
       [AddFromText ''Alice,Bob'', AddFromRows [[''Carol'', '' ''], [''Dan '']]] initial)
     = [\<lparr>id_p = ''i'', name = ''Alice''\<rparr>, \<lparr>id_p = ''9'', name = ''Bob''\<rparr>,
        \<lparr>id_p = ''4i'', name = ''Carol''\<rparr>, \<lparr>id_p = ''29'', name = ''Dan''\<rparr>]"
    by code_simp
  ultimately show ?thesis
    using add_calls_ids[of digits36 halving
       "[AddFromText ''Alice,Bob'', AddFromRows [[''Carol'', '' ''], [''Dan '']]]" initial]
    by simp
qed

subsection \<open>C10\<close>

text \<open>
  C10: \<open>removeName\<close> changes the roster only. The winner record and the group set stay as
  they are, and the roster keeps the participants with another id in their order.
\<close>

theorem removeName_changes_roster_only:
  "removeName i st = st\<lparr>names := names (removeName i st)\<rparr>
   \<and> winners (removeName i st) = winners st
   \<and> groups (removeName i st) = groups st
   \<and> names (removeName i st) = filter (\<lambda>n. id_p n \<noteq> i) (names st)
   \<and> subseq (names (removeName i st)) (names st)"
  by (simp add: removeName_def)

theorem removeName_changes_roster_only_witness:
  "names (removeName ''b1'' (initial\<lparr>names := [alice, bob, carol], winners := [bob], groups := [[bob, alice], [carol]]\<rparr>)) = [alice, carol]
   \<and> winners (removeName ''b1'' (initial\<lparr>names := [alice, bob, carol], winners := [bob], groups := [[bob, alice], [carol]]\<rparr>)) = [bob]
   \<and> groups (removeName ''b1'' (initial\<lparr>names := [alice, bob, carol], winners := [bob], groups := [[bob, alice], [carol]]\<rparr>)) = [[bob, alice], [carol]]"
  using removeName_changes_roster_only[of "''b1''" "initial\<lparr>names := [alice, bob, carol], winners := [bob], groups := [[bob, alice], [carol]]\<rparr>"]
  by (simp add: alice_def bob_def carol_def)

end
